theory Spec2Isabelle
  imports Main "HOL-Library.Monad_Syntax"
begin

section \<open>Preemptive priority scheduling with round robin (scheduling.c)\<close>

text \<open>
  The program keeps every process in a heap-allocated \<^verbatim>\<open>struct Node\<close>. The master list
  (\<^verbatim>\<open>table\<close>, linked through \<^verbatim>\<open>tableNext\<close>) is built once by \<^verbatim>\<open>readFile\<close> and never changes
  its shape, so it is modelled as a HOL list and a pointer to a node is the node's position
  in that list (\<open>None\<close> is \<^verbatim>\<open>NULL\<close>). The ready queue is a second linked list threaded through
  the same nodes by the \<^verbatim>\<open>next\<close> field; that field is kept as a pointer, so that stale links and
  aliasing between the queue and the running slot are part of the model.

  The C \<^verbatim>\<open>int\<close> fields are modelled as unbounded integers: over the fixed horizon of \<open>N\<close> ticks
  every counter changes by at most \<open>N\<close>, so no wrap-around is involved.

  A function that contains a loop over the ready queue returns an option: \<open>None\<close> stands for a
  call that does not return (the loop runs forever on a cyclic chain, or a \<^verbatim>\<open>NULL\<close> pointer is
  read). Every property below that speaks of a result proves that the call returns one.
\<close>

subsection \<open>Constants and data\<close>

definition Q :: int where
  "Q = 10"

definition N :: nat where
  "N = 96"

text \<open>\<^verbatim>\<open>struct Node\<close>; \<open>nxt\<close> is the field \<^verbatim>\<open>next\<close>, \<open>id_s\<close> the field \<^verbatim>\<open>id\<close>.\<close>

record Node =
  id_s :: string
  priority :: int
  burst :: int
  arrival :: int
  timeLeft :: int
  turnaround :: int
  wait :: int
  quantum :: int
  nxt :: "nat option"

text \<open>The three globals \<^verbatim>\<open>table\<close>, \<^verbatim>\<open>head\<close> and \<^verbatim>\<open>running\<close>.\<close>

record state =
  table :: "Node list"
  head :: "nat option"
  running :: "nat option"

definition newNode :: "string \<Rightarrow> int \<Rightarrow> int \<Rightarrow> int \<Rightarrow> Node" where
  "newNode i p b a =
     \<lparr>id_s = i, priority = p, burst = b, arrival = a, timeLeft = b,
      turnaround = 0, wait = 0, quantum = 0, nxt = None\<rparr>"

text \<open>
  What \<^verbatim>\<open>main\<close> has after \<^verbatim>\<open>readFile\<close>: one fresh node per input line, in file order, and
  empty queue and running slot. The parsing itself is not modelled; a line is the tuple
  (name, priority, burst, arrival).
\<close>

definition readFile :: "(string \<times> int \<times> int \<times> int) list \<Rightarrow> state" where
  "readFile ls =
     \<lparr>table = map (\<lambda>(i, p, b, a). newNode i p b a) ls, head = None, running = None\<rparr>"

text \<open>
  Reading and writing through a node pointer. A pointer of the program is \<^verbatim>\<open>NULL\<close> or the
  address of a node of the table; the properties below are about positions inside the table.
\<close>

definition deref :: "state \<Rightarrow> nat \<Rightarrow> Node" where
  "deref s p = table s ! p"

definition store :: "nat \<Rightarrow> (Node \<Rightarrow> Node) \<Rightarrow> state \<Rightarrow> state" where
  "store p f s = s\<lparr>table := (table s)[p := f (table s ! p)]\<rparr>"

subsection \<open>The ready queue\<close>

text \<open>
  The \<^verbatim>\<open>while\<close> loop of \<^verbatim>\<open>enqueue\<close>'s last branch: starting from \<^verbatim>\<open>nav = head\<close> it advances while
  \<^verbatim>\<open>nav->next != NULL && nav->next->priority <= node->priority && node->quantum == 0\<close>
  and yields the final \<^verbatim>\<open>nav\<close>. On a cyclic chain the loop need not end, hence the option.
\<close>

partial_function (option) enqueue_loop :: "state \<Rightarrow> nat \<Rightarrow> nat \<Rightarrow> nat option" where
  "enqueue_loop s node nav =
     (case nxt (deref s nav) of
        None \<Rightarrow> Some nav
      | Some m \<Rightarrow>
          if priority (deref s m) \<le> priority (deref s node) \<and> quantum (deref s node) = 0
          then enqueue_loop s node m
          else Some nav)"

declare enqueue_loop.simps [code]

definition enqueue :: "nat option \<Rightarrow> state \<Rightarrow> state option" where
  "enqueue nodep s =
     (case nodep of
        None \<Rightarrow> Some s
      | Some node \<Rightarrow>
          let s1 = (if quantum (deref s node) \<ge> Q
                    then store node (\<lambda>n. n\<lparr>quantum := 0\<rparr>) s else s)
          in
          (case head s1 of
             None \<Rightarrow> Some (s1\<lparr>head := Some node\<rparr>)
           | Some h \<Rightarrow>
               if priority (deref s1 node) > priority (deref s1 h) then
                 Some ((store node (\<lambda>n. n\<lparr>nxt := head s1\<rparr>) s1)\<lparr>head := Some node\<rparr>)
               else if priority (deref s1 node) = priority (deref s1 h) then
                 (if quantum (deref s1 node) \<noteq> 0 then
                    Some ((store node (\<lambda>n. n\<lparr>nxt := head s1\<rparr>) s1)\<lparr>head := Some node\<rparr>)
                  else
                    (let s2 = store node (\<lambda>n. n\<lparr>nxt := nxt (deref s1 h)\<rparr>) s1
                     in Some (store h (\<lambda>n. n\<lparr>nxt := Some node\<rparr>) s2)))
               else
                 do {
                   nav \<leftarrow> enqueue_loop s1 node h;
                   let s2 = store node (\<lambda>n. n\<lparr>nxt := nxt (deref s1 nav)\<rparr>) s1;
                   Some (store nav (\<lambda>n. n\<lparr>nxt := Some node\<rparr>) s2)
                 }))"

definition dequeue :: "state \<Rightarrow> state" where
  "dequeue s =
     (let s1 = s\<lparr>running := head s\<rparr>
      in case head s1 of
           None \<Rightarrow> s1
         | Some h \<Rightarrow> s1\<lparr>head := nxt (deref s1 h)\<rparr>)"

subsection \<open>The per-tick steps\<close>

definition quantumCheck :: "state \<Rightarrow> state option" where
  "quantumCheck s =
     (case running s of
        None \<Rightarrow> Some s
      | Some r \<Rightarrow>
          if timeLeft (deref s r) = 0 then
            Some (dequeue (store r (\<lambda>n. n\<lparr>nxt := None\<rparr>) s))
          else if quantum (deref s r) = Q then
            do { s1 \<leftarrow> enqueue (running s) s; Some (dequeue s1) }
          else Some s)"

text \<open>The \<^verbatim>\<open>while(nav != NULL)\<close> loop of \<^verbatim>\<open>stepProcesses\<close> over the ready queue.\<close>

partial_function (option) step_loop :: "state \<Rightarrow> nat option \<Rightarrow> state option" where
  "step_loop s nav =
     (case nav of
        None \<Rightarrow> Some s
      | Some p \<Rightarrow>
          (let s1 = store p (\<lambda>n. n\<lparr>wait := wait n + 1\<rparr>) s;
               s2 = store p (\<lambda>n. n\<lparr>turnaround := turnaround n + 1\<rparr>) s1
           in step_loop s2 (nxt (deref s2 p))))"

declare step_loop.simps [code]

definition stepProcesses :: "state \<Rightarrow> state option" where
  "stepProcesses s =
     (let s1 = (case running s of
                  None \<Rightarrow> s
                | Some r \<Rightarrow>
                    store r (\<lambda>n. n\<lparr>turnaround := turnaround n + 1\<rparr>)
                      (store r (\<lambda>n. n\<lparr>timeLeft := timeLeft n - 1\<rparr>)
                        (store r (\<lambda>n. n\<lparr>quantum := quantum n + 1\<rparr>) s)))
      in step_loop s1 (head s1))"

subsection \<open>The main loop\<close>

text \<open>
  The two inner branches of the preemption case of \<^verbatim>\<open>main\<close> (the arriving \<^verbatim>\<open>nav\<close> has a higher
  priority than \<^verbatim>\<open>running\<close>): the first is taken when \<^verbatim>\<open>running->quantum\<close> is 0 or 10, the
  second otherwise and prints the context-switch line before it acts. Both read through
  \<^verbatim>\<open>running\<close>, which \<^verbatim>\<open>main\<close> has found not to be \<^verbatim>\<open>NULL\<close> when it enters them.
\<close>

definition preempt_boundary :: "nat \<Rightarrow> state \<Rightarrow> state option" where
  "preempt_boundary nav s =
     (case running s of
        None \<Rightarrow> None
      | Some r \<Rightarrow>
          if timeLeft (deref s r) \<le> 0 then Some (s\<lparr>running := Some nav\<rparr>)
          else do { s1 \<leftarrow> enqueue (running s) s; Some (s1\<lparr>running := Some nav\<rparr>) })"

definition preempt_midslice :: "nat \<Rightarrow> state \<Rightarrow> state option" where
  "preempt_midslice nav s =
     (case running s of
        None \<Rightarrow> None
      | Some r \<Rightarrow> do { s1 \<leftarrow> enqueue (running s) s; Some (s1\<lparr>running := Some nav\<rparr>) })"

text \<open>The body of \<^verbatim>\<open>if(nav->arrival == t)\<close>, without the flag.\<close>

definition arrive :: "nat \<Rightarrow> state \<Rightarrow> state option" where
  "arrive nav s =
     (case running s of
        None \<Rightarrow> Some (s\<lparr>running := Some nav\<rparr>)
      | Some r \<Rightarrow>
          if priority (deref s nav) > priority (deref s r) then
            (if quantum (deref s r) = 0 \<or> quantum (deref s r) = 10
             then preempt_boundary nav s
             else preempt_midslice nav s)
          else enqueue (Some nav) s)"

text \<open>
  The \<^verbatim>\<open>while(nav != NULL)\<close> scan of the master list at tick \<open>t\<close>, over the remaining
  positions; the boolean is \<^verbatim>\<open>flag\<close>.
\<close>

fun scan :: "int \<Rightarrow> nat list \<Rightarrow> state \<Rightarrow> bool \<Rightarrow> (state \<times> bool) option" where
  "scan t [] s flag = Some (s, flag)"
| "scan t (nav # rest) s flag =
     (if arrival (deref s nav) = t
      then do { s1 \<leftarrow> arrive nav s; scan t rest s1 True }
      else scan t rest s flag)"

text \<open>One iteration of the \<^verbatim>\<open>for\<close> loop of \<^verbatim>\<open>main\<close>.\<close>

definition tick :: "int \<Rightarrow> state \<Rightarrow> state option" where
  "tick t s =
     do {
       (s1, flag) \<leftarrow> scan t [0..<length (table s)] s False;
       s2 \<leftarrow> (if \<not> flag then quantumCheck s1 else Some s1);
       stepProcesses s2
     }"

text \<open>The state of \<^verbatim>\<open>for(int t=0; t<N; t++)\<close> after its first \<open>k\<close> iterations.\<close>

fun ticks :: "nat \<Rightarrow> state \<Rightarrow> state option" where
  "ticks 0 s = Some s"
| "ticks (Suc k) s = do { s1 \<leftarrow> ticks k s; tick (int k) s1 }"

text \<open>What \<^verbatim>\<open>output\<close> prints, per process in table order: name, turnaround, wait.\<close>

definition output_rows :: "state \<Rightarrow> (string \<times> int \<times> int) list" where
  "output_rows s = map (\<lambda>n. (id_s n, turnaround n, wait n)) (table s)"

definition main :: "(string \<times> int \<times> int \<times> int) list \<Rightarrow> (string \<times> int \<times> int) list option" where
  "main ls = do { s \<leftarrow> ticks N (readFile ls); Some (output_rows s) }"

subsection \<open>Reading the ready queue off the heap\<close>

text \<open>
  \<open>queue tbl p xs\<close>: in the nodes \<open>tbl\<close>, following \<^verbatim>\<open>next\<close> from pointer \<open>p\<close> visits exactly
  the nodes \<open>xs\<close>, in this order, and then reaches \<^verbatim>\<open>NULL\<close>. \<open>readyQueue s xs\<close> says this of
  \<^verbatim>\<open>head\<close>: the ready queue of \<open>s\<close> is a well-formed list and holds \<open>xs\<close>, front first.
\<close>

fun queue :: "Node list \<Rightarrow> nat option \<Rightarrow> nat list \<Rightarrow> bool" where
  "queue tbl p [] = (p = None)"
| "queue tbl p (x # xs) = (p = Some x \<and> x < length tbl \<and> queue tbl (nxt (tbl ! x)) xs)"

definition readyQueue :: "state \<Rightarrow> nat list \<Rightarrow> bool" where
  "readyQueue s xs = queue (table s) (head s) xs"

subsection \<open>Notions used to state and prove the properties\<close>

text \<open>
  A node with its queue link erased, so that two nodes can be compared on every field but
  \<^verbatim>\<open>next\<close>; and what the first statement of \<^verbatim>\<open>enqueue\<close> does to the node it is given.
\<close>

definition unlinked :: "Node \<Rightarrow> Node" where
  "unlinked n = n\<lparr>nxt := None\<rparr>"

definition normalise :: "Node \<Rightarrow> Node" where
  "normalise n = (if Q \<le> quantum n then n\<lparr>quantum := 0\<rparr> else n)"

text \<open>
  \<open>placed s node pre post s'\<close>: state \<open>s'\<close> is state \<open>s\<close> with \<open>node\<close> linked into the ready queue
  between \<open>pre\<close> and \<open>post\<close>. Nodes outside the queue keep all their fields, queued nodes keep
  all but the link, and \<open>node\<close> itself is normalised.
\<close>

definition placed :: "state \<Rightarrow> nat \<Rightarrow> nat list \<Rightarrow> nat list \<Rightarrow> state \<Rightarrow> bool" where
  "placed s node pre post s' \<longleftrightarrow>
     readyQueue s' (pre @ node # post) \<and> running s' = running s \<and>
     length (table s') = length (table s) \<and>
     (\<forall>i<length (table s). i \<notin> set (pre @ post) \<and> i \<noteq> node \<longrightarrow> table s' ! i = table s ! i) \<and>
     (\<forall>i<length (table s). unlinked (table s' ! i) =
         unlinked (if i = node then normalise (table s ! i) else table s ! i))"

text \<open>What \<^verbatim>\<open>stepProcesses\<close> does to a queued node and to the running node.\<close>

definition bump :: "Node \<Rightarrow> Node" where
  "bump n = n\<lparr>wait := wait n + 1, turnaround := turnaround n + 1\<rparr>"

definition advance :: "Node \<Rightarrow> Node" where
  "advance n = n\<lparr>quantum := quantum n + 1, timeLeft := timeLeft n - 1, turnaround := turnaround n + 1\<rparr>"

text \<open>A node that is still as \<^verbatim>\<open>newNode\<close> made it.\<close>

definition fresh :: "Node \<Rightarrow> bool" where
  "fresh n \<longleftrightarrow> timeLeft n = burst n \<and> turnaround n = 0 \<and> wait n = 0 \<and> quantum n = 0 \<and> nxt n = None"

text \<open>
  \<open>later s s'\<close>: state \<open>s'\<close> holds the same processes as \<open>s\<close> (the fields that no operation
  writes are equal) and its counters have only moved forward: wait and turnaround have not
  decreased, the remaining time has not increased.
\<close>

definition later :: "state \<Rightarrow> state \<Rightarrow> bool" where
  "later s s' \<longleftrightarrow>
     length (table s') = length (table s) \<and>
     (\<forall>i<length (table s).
        arrival (table s' ! i) = arrival (table s ! i) \<and> priority (table s' ! i) = priority (table s ! i) \<and>
        burst (table s' ! i) = burst (table s ! i) \<and> id_s (table s' ! i) = id_s (table s ! i) \<and>
        wait (table s ! i) \<le> wait (table s' ! i) \<and>
        turnaround (table s ! i) \<le> turnaround (table s' ! i) \<and>
        timeLeft (table s' ! i) \<le> timeLeft (table s ! i))"

text \<open>
  The invariant of the simulation, relative to the set \<open>F\<close> of processes that have not arrived
  yet. \<open>queue_inv\<close> is the part that also holds between an \<^verbatim>\<open>enqueue(running)\<close> and the
  assignment to \<^verbatim>\<open>running\<close> that follows it; \<open>sched_inv\<close> adds the running slot: the running
  process is not queued, and its stale \<^verbatim>\<open>next\<close> link is \<^verbatim>\<open>NULL\<close> whenever the queue is empty
  (\<^verbatim>\<open>enqueue\<close> does not clear the link of a node it puts into an empty queue).
\<close>

definition queue_inv :: "nat set \<Rightarrow> state \<Rightarrow> nat list \<Rightarrow> bool" where
  "queue_inv F s xs \<longleftrightarrow>
     readyQueue s xs \<and> set xs \<inter> F = {} \<and>
     (\<forall>i\<in>set xs. quantum (deref s i) < Q) \<and>
     (\<forall>i\<in>F. i < length (table s) \<and> fresh (deref s i)) \<and>
     (\<forall>i<length (table s). 0 \<le> quantum (deref s i))"

definition sched_inv :: "nat set \<Rightarrow> state \<Rightarrow> nat list \<Rightarrow> bool" where
  "sched_inv F s xs \<longleftrightarrow>
     queue_inv F s xs \<and>
     (\<forall>r. running s = Some r \<longrightarrow>
        r < length (table s) \<and> r \<notin> F \<and> r \<notin> set xs \<and>
        (head s = None \<longrightarrow> nxt (deref s r) = None))"

text \<open>
  The processes that the arrival scan has not reached when, at tick \<open>t\<close>, the positions \<open>rest\<close>
  of the master list are still to be visited.
\<close>

definition pending :: "int \<Rightarrow> nat list \<Rightarrow> state \<Rightarrow> nat set" where
  "pending t rest s =
     {i. i < length (table s) \<and>
         (arrival (deref s i) < 0 \<or> t < arrival (deref s i) \<or> arrival (deref s i) = t \<and> i \<in> set rest)}"

subsection \<open>Concrete runs\<close>

text \<open>
  Input files and the states the program reaches on them; each state is the result of the
  run named in its definition, and the theorems that use it say that the run returns it.
\<close>

definition C1_input :: "(string \<times> int \<times> int \<times> int) list" where
  "C1_input = [(''P1'', 10, 50, 0), (''A'', 9, 5, 1), (''B'', 7, 5, 2), (''C'', 5, 5, 3)]"

definition C1_before :: state where
  "C1_before = the (ticks 3 (readFile C1_input))"

definition C1_after :: state where
  "C1_after = the (ticks 4 (readFile C1_input))"

definition C2_input :: "(string \<times> int \<times> int \<times> int) list" where
  "C2_input = [(''P1'', 1, 3, 0), (''P2'', 5, 2, 3)]"

definition C2_before :: state where
  "C2_before = the (ticks 3 (readFile C2_input))"

definition C2_after :: state where
  "C2_after = the (arrive 1 C2_before)"

definition C3_bug_input :: "(string \<times> int \<times> int \<times> int) list" where
  "C3_bug_input = [(''Z'', 9, 5, 0), (''A'', 3, 2, 1), (''P'', 1, 20, 2), (''B'', 2, 5, 3),
     (''C'', 2, 5, 4), (''H'', 5, 3, 9)]"

definition C3_before :: state where
  "C3_before = the (ticks 9 (readFile C3_bug_input))"

definition C3_after :: state where
  "C3_after = the (enqueue (Some 2) C3_before)"

definition C3_input :: "(string \<times> int \<times> int \<times> int) list" where
  "C3_input = [(''L'', 5, 30, 0), (''M'', 5, 5, 1), (''H'', 9, 4, 3)]"

definition C3_state :: state where
  "C3_state = the (ticks 3 (readFile C3_input))"

definition C4_input :: "(string \<times> int \<times> int \<times> int) list" where
  "C4_input = [(''P1'', 9, 50, 0), (''P2'', 5, 5, 1), (''P3'', 5, 5, 2), (''P4'', 5, 5, 3)]"

definition C4_before :: state where
  "C4_before = the (ticks 3 (readFile C4_input))"

definition C4_after :: state where
  "C4_after = the (enqueue (Some 3) C4_before)"

definition C5_input :: "(string \<times> int \<times> int \<times> int) list" where
  "C5_input = [(''P1'', 5, 3, 0), (''P2'', 1, 5, 3)]"

definition C5_state :: state where
  "C5_state = the (ticks 4 (readFile C5_input))"

definition C6_input :: "(string \<times> int \<times> int \<times> int) list" where
  "C6_input = [(''P1'', 2, 4, 0), (''P2'', 7, 1, 4)]"

definition C6_finished :: state where
  "C6_finished = the (ticks 4 (readFile C6_input))"

definition C6_queued :: state where
  "C6_queued = the (ticks 5 (readFile C6_input))"

definition C6_resumed :: state where
  "C6_resumed = the (ticks 6 (readFile C6_input))"

definition C7_input :: "(string \<times> int \<times> int \<times> int) list" where
  "C7_input = [(''P1'', 5, 20, 0), (''P2'', 5, 5, 10)]"

definition C7_state :: state where
  "C7_state = the (ticks 11 (readFile C7_input))"

definition C7_rr_input :: "(string \<times> int \<times> int \<times> int) list" where
  "C7_rr_input = [(''A'', 5, 15, 0), (''B'', 5, 15, 0)]"

definition C7_rr_state :: state where
  "C7_rr_state = the (ticks 10 (readFile C7_rr_input))"

definition C8_input :: "(string \<times> int \<times> int \<times> int) list" where
  "C8_input = [(''A'', 3, 12, 0), (''B'', 3, 4, 1), (''C'', 8, 2, 2)]"

definition C8_state :: state where
  "C8_state = the (ticks 5 (readFile C8_input))"

definition C9_input :: "(string \<times> int \<times> int \<times> int) list" where
  "C9_input = [(''X'', 2, 2, 0), (''Y'', 3, 4, 2)]"

definition C9_state :: state where
  "C9_state = the (ticks 2 (readFile C9_input))"

definition C9_midslice :: state where
  "C9_midslice = the (preempt_midslice 1 C9_state)"

definition C9_boundary :: state where
  "C9_boundary = the (preempt_boundary 1 C9_state)"

definition C9_live_input :: "(string \<times> int \<times> int \<times> int) list" where
  "C9_live_input = [(''A'', 1, 20, 0), (''B'', 5, 3, 2)]"

definition C9_live_state :: state where
  "C9_live_state = the (ticks 2 (readFile C9_live_input))"

definition C10_input :: "(string \<times> int \<times> int \<times> int) list" where
  "C10_input = [(''P1'', 1, 5, 0), (''P2'', 2, 5, 96), (''P3'', 3, 5, - 1)]"

section \<open>Proofs\<close>

subsection \<open>Well-formed queues on the heap\<close>

text \<open>
  A chain that ends in \<^verbatim>\<open>NULL\<close> visits no node twice, is determined by its first pointer, and
  is not affected by writes to nodes outside it or to fields other than \<^verbatim>\<open>next\<close>.
\<close>

lemma table_store [simp]: "table (store p f s) = (table s)[p := f (table s ! p)]"
  and head_store [simp]: "head (store p f s) = head s"
  and running_store [simp]: "running (store p f s) = running s"
  by (simp_all add: store_def)

lemma queue_None [simp]: "queue tbl None xs = (xs = [])"
  by (cases xs) simp_all

lemma queue_Some: "queue tbl (Some x) xs = (\<exists>ys. xs = x # ys \<and> x < length tbl \<and> queue tbl (nxt (tbl ! x)) ys)"
  by (cases xs) auto

lemma queue_unique: "queue tbl p xs \<Longrightarrow> queue tbl p ys \<Longrightarrow> xs = ys"
  by (induction xs arbitrary: p ys) (auto simp: queue_Some)

lemma queue_bound: "queue tbl p xs \<Longrightarrow> x \<in> set xs \<Longrightarrow> x < length tbl"
  by (induction xs arbitrary: p) auto

lemma queue_append: "queue tbl p (xs @ y # ys) \<Longrightarrow> queue tbl (Some y) (y # ys)"
  by (induction xs arbitrary: p) auto

lemma queue_hd_notin_tl: "queue tbl (nxt (tbl ! x)) xs \<Longrightarrow> x < length tbl \<Longrightarrow> x \<notin> set xs"
proof
  assume q: "queue tbl (nxt (tbl ! x)) xs" and b: "x < length tbl" and "x \<in> set xs"
  then obtain us vs where xs: "xs = us @ x # vs"
    by (auto simp: in_set_conv_decomp)
  with q have "queue tbl (Some x) (x # vs)"
    by (auto dest: queue_append)
  then have "queue tbl (nxt (tbl ! x)) vs"
    by simp
  with q have "xs = vs"
    by (rule queue_unique)
  with xs show False
    by simp
qed

lemma queue_distinct: "queue tbl p xs \<Longrightarrow> distinct xs"
  by (induction xs arbitrary: p) (auto dest: queue_hd_notin_tl)

lemma queue_cong:
  "length tbl' = length tbl \<Longrightarrow> (\<And>x. x \<in> set xs \<Longrightarrow> nxt (tbl' ! x) = nxt (tbl ! x)) \<Longrightarrow>
   queue tbl' p xs = queue tbl p xs"
  by (induction xs arbitrary: p) auto

lemma queue_update_notin:
  "u \<notin> set xs \<Longrightarrow> queue (tbl[u := v]) p xs = queue tbl p xs"
proof (rule queue_cong)
  fix x assume "u \<notin> set xs" "x \<in> set xs"
  then have "u \<noteq> x" by auto
  then show "nxt (tbl[u := v] ! x) = nxt (tbl ! x)" by simp
qed simp

lemma queue_update_data:
  "nxt v = nxt (tbl ! u) \<Longrightarrow> queue (tbl[u := v]) p xs = queue tbl p xs"
proof (rule queue_cong)
  fix x assume "nxt v = nxt (tbl ! u)"
  then show "nxt (tbl[u := v] ! x) = nxt (tbl ! x)"
    by (cases "u < length tbl") (auto simp: nth_list_update list_update_beyond not_less)
qed simp

subsection \<open>What \<^verbatim>\<open>enqueue\<close> does to a well-formed queue\<close>

lemma unlinked_fields:
  "unlinked a = unlinked b \<Longrightarrow>
     priority a = priority b \<and> burst a = burst b \<and> arrival a = arrival b \<and>
     timeLeft a = timeLeft b \<and> turnaround a = turnaround b \<and> wait a = wait b \<and>
     quantum a = quantum b \<and> id_s a = id_s b"
  by (cases a, cases b) (simp add: unlinked_def)

lemma unlinked_upd [simp]: "unlinked (n\<lparr>nxt := p\<rparr>) = unlinked n"
  by (simp add: unlinked_def)

lemma enqueue_loop_stops:
  "queue (table s) (Some h) (h # xs) \<Longrightarrow>
   \<exists>pre nav post. h # xs = pre @ nav # post \<and> enqueue_loop s node h = Some nav \<and>
      (quantum (deref s node) \<noteq> 0 \<longrightarrow> pre = [])"
proof (induction xs arbitrary: h)
  case Nil
  then have "enqueue_loop s node h = Some h"
    by (subst enqueue_loop.simps) (simp add: deref_def)
  then have "[h] = [] @ h # [] \<and> enqueue_loop s node h = Some h"
    by simp
  then show ?case by blast
next
  case (Cons x xs)
  then have nx: "nxt (deref s h) = Some x" and q: "queue (table s) (Some x) (x # xs)"
    by (simp_all add: deref_def)
  show ?case
  proof (cases "priority (deref s x) \<le> priority (deref s node) \<and> quantum (deref s node) = 0")
    case True
    from Cons.IH [OF q] obtain pre nav post
      where "x # xs = pre @ nav # post" "enqueue_loop s node x = Some nav"
      by blast
    moreover from True nx have "enqueue_loop s node h = enqueue_loop s node x"
      by (subst enqueue_loop.simps) simp
    ultimately have "h # x # xs = (h # pre) @ nav # post \<and> enqueue_loop s node h = Some nav"
      by simp
    with True show ?thesis by blast
  next
    case False
    with nx have "enqueue_loop s node h = Some h"
      by (subst enqueue_loop.simps) auto
    then have "h # x # xs = [] @ h # x # xs \<and> enqueue_loop s node h = Some h"
      by simp
    then show ?thesis by blast
  qed
qed

lemma insert_after:
  assumes "queue (table s) p (pre @ nav # post)" "node \<notin> set (pre @ nav # post)"
    "node < length (table s)"
  shows "queue (table (store nav (\<lambda>n. n\<lparr>nxt := Some node\<rparr>)
                  (store node (\<lambda>n. n\<lparr>nxt := nxt (deref s nav)\<rparr>) s))) p (pre @ nav # node # post)"
  using assms
proof (induction pre arbitrary: p)
  case Nil
  then have d: "nav \<notin> set post" "nav \<noteq> node" "node \<notin> set post" "nav < length (table s)"
    by (auto dest: queue_hd_notin_tl)
  from Nil have "queue (table s) (nxt (table s ! nav)) post" "p = Some nav" by simp_all
  with d Nil.prems(3) show ?case
    by (simp add: deref_def queue_update_notin)
next
  case (Cons a pre)
  from Cons.prems(1) have "distinct ((a # pre) @ nav # post)"
    by (rule queue_distinct)
  with Cons.prems have d: "a \<noteq> nav" "a \<noteq> node" "a < length (table s)"
    by auto
  from Cons have "queue (table s) (nxt (table s ! a)) (pre @ nav # post)" "p = Some a"
    by simp_all
  with Cons.IH [of "nxt (table s ! a)"] Cons.prems d show ?case
    by simp
qed

lemma enqueue_normalised:
  assumes "node < length (table s)" "Q \<le> quantum (deref s node)"
  shows "enqueue (Some node) s = enqueue (Some node) (store node (\<lambda>n. n\<lparr>quantum := 0\<rparr>) s)"
  using assms by (simp add: enqueue_def deref_def Q_def)

lemma enqueue_placed_core:
  assumes q: "readyQueue s xs" and b: "node < length (table s)" and n: "node \<notin> set xs"
    and e: "head s = None \<longrightarrow> nxt (deref s node) = None"
    and z: "quantum (deref s node) < Q"
  shows "\<exists>s' pre post. enqueue (Some node) s = Some s' \<and> xs = pre @ post \<and>
           placed s node pre post s' \<and>
           (quantum (deref s node) \<noteq> 0 \<longrightarrow>
              pre = [] \<or> pre = [hd xs] \<and> priority (deref s node) < priority (deref s (hd xs)))"
proof (cases xs)
  case Nil
  with q have h: "head s = None"
    by (simp add: readyQueue_def)
  with z have "enqueue (Some node) s = Some (s\<lparr>head := Some node\<rparr>)"
    by (simp add: enqueue_def)
  moreover from h e b z have "placed s node [] [] (s\<lparr>head := Some node\<rparr>)"
    by (simp add: placed_def readyQueue_def deref_def normalise_def)
  ultimately show ?thesis
    using Nil by blast
next
  case (Cons h xs')
  with q have h: "head s = Some h" "h < length (table s)"
    and q': "queue (table s) (Some h) (h # xs')"
    by (simp_all add: readyQueue_def)
  from n Cons have hn: "h \<noteq> node" by auto
  let ?front = "(store node (\<lambda>n. n\<lparr>nxt := Some h\<rparr>) s)\<lparr>head := Some node\<rparr>"
  have front: "placed s node [] xs ?front"
    using q' b n z Cons
    by (simp add: placed_def readyQueue_def queue_update_notin nth_list_update normalise_def
        deref_def)
  consider
    (A) "priority (deref s h) < priority (deref s node)
         \<or> priority (deref s node) = priority (deref s h) \<and> quantum (deref s node) \<noteq> 0"
  | (B) "priority (deref s node) = priority (deref s h)" "quantum (deref s node) = 0"
  | (C) "priority (deref s node) < priority (deref s h)"
    by linarith
  then show ?thesis
  proof cases
    case A
    with h z have "enqueue (Some node) s = Some ?front"
      by (auto simp: enqueue_def)
    with front show ?thesis
      by (metis append_Nil)
  next
    case B
    let ?s' = "store h (\<lambda>n. n\<lparr>nxt := Some node\<rparr>)
                 (store node (\<lambda>n. n\<lparr>nxt := nxt (deref s h)\<rparr>) s)"
    from B h z have en: "enqueue (Some node) s = Some ?s'"
      by (simp add: enqueue_def)
    from q' n b Cons have "queue (table ?s') (Some h) ([] @ h # node # xs')"
      by (intro insert_after) simp_all
    with h b hn z have "placed s node [h] xs' ?s'"
      by (simp add: placed_def readyQueue_def nth_list_update normalise_def deref_def)
    with en Cons B show ?thesis
      by (metis append_Cons append_Nil)
  next
    case C
    from enqueue_loop_stops [OF q', of node] obtain pre nav post
      where sp: "h # xs' = pre @ nav # post" and lp: "enqueue_loop s node h = Some nav"
        and pz: "quantum (deref s node) \<noteq> 0 \<longrightarrow> pre = []"
      by blast
    let ?s' = "store nav (\<lambda>n. n\<lparr>nxt := Some node\<rparr>)
                 (store node (\<lambda>n. n\<lparr>nxt := nxt (deref s nav)\<rparr>) s)"
    from C h z lp have en: "enqueue (Some node) s = Some ?s'"
      by (simp add: enqueue_def)
    from n Cons have "node \<notin> set (h # xs')"
      by simp
    then have nn: "node \<notin> set (pre @ nav # post)" "nav \<noteq> node"
      by (auto simp: sp)
    from q' sp have "queue (table s) (Some h) (pre @ nav # post)"
      by simp
    with nn b have "queue (table ?s') (Some h) (pre @ nav # node # post)"
      by (intro insert_after)
    moreover obtain pre' where pre': "pre @ [nav] = h # pre'" "xs' = pre' @ post"
      using sp by (cases pre) auto
    moreover have "pre @ nav # node # post = (h # pre') @ node # post"
      using pre'(1) by (metis append.assoc append_Cons append_Nil)
    ultimately have "readyQueue ?s' ((h # pre') @ node # post)"
      using h by (simp only: readyQueue_def head_store)
    moreover have "nav \<in> set (h # pre')"
      using pre'(1) by (metis in_set_conv_decomp)
    moreover from q' sp have "nav < length (table s)"
      by (auto intro: queue_bound)
    ultimately have "placed s node (h # pre') post ?s'"
      using b nn z pre' Cons
      by (auto simp: placed_def nth_list_update normalise_def deref_def)
    moreover have "quantum (deref s node) \<noteq> 0 \<longrightarrow> h # pre' = [hd xs]"
      using pz pre' Cons by auto
    ultimately show ?thesis
      using en pre' Cons C by (metis append_Cons list.sel(1))
  qed
qed

lemma placed_normalised:
  assumes b: "node < length (table s)" and z: "Q \<le> quantum (deref s node)"
    and p: "placed (store node (\<lambda>n. n\<lparr>quantum := 0\<rparr>) s) node pre post s'"
  shows "placed s node pre post s'"
proof -
  have "0 < Q" by (simp add: Q_def)
  with p b z show ?thesis
    by (simp add: placed_def nth_list_update normalise_def deref_def)
qed

lemma enqueue_placed:
  assumes q: "readyQueue s xs" and b: "node < length (table s)" and n: "node \<notin> set xs"
    and e: "head s = None \<longrightarrow> nxt (deref s node) = None"
  shows "\<exists>s' pre post. enqueue (Some node) s = Some s' \<and> xs = pre @ post \<and>
           placed s node pre post s' \<and>
           (quantum (deref s node) \<noteq> 0 \<and> quantum (deref s node) < Q \<longrightarrow>
              pre = [] \<or> pre = [hd xs] \<and> priority (deref s node) < priority (deref s (hd xs)))"
proof (cases "quantum (deref s node) < Q")
  case True
  from enqueue_placed_core [OF q b n e True] show ?thesis
    by blast
next
  case False
  let ?s0 = "store node (\<lambda>n. n\<lparr>quantum := 0\<rparr>) s"
  have "readyQueue ?s0 xs"
    using q by (simp add: readyQueue_def queue_update_data)
  moreover have "node < length (table ?s0)"
    using b by simp
  moreover note n
  moreover have "head ?s0 = None \<longrightarrow> nxt (deref ?s0 node) = None"
    using e b by (simp add: deref_def)
  moreover have "quantum (deref ?s0 node) < Q"
    using b by (simp add: deref_def Q_def)
  ultimately have "\<exists>s' pre post. enqueue (Some node) ?s0 = Some s' \<and> xs = pre @ post \<and>
      placed ?s0 node pre post s' \<and>
      (quantum (deref ?s0 node) \<noteq> 0 \<longrightarrow>
         pre = [] \<or> pre = [hd xs] \<and> priority (deref ?s0 node) < priority (deref ?s0 (hd xs)))"
    by (rule enqueue_placed_core)
  then obtain s' pre post
    where "enqueue (Some node) ?s0 = Some s'" "xs = pre @ post" "placed ?s0 node pre post s'"
    by auto
  with False b have "enqueue (Some node) s = Some s' \<and> xs = pre @ post \<and> placed s node pre post s'"
    by (simp add: enqueue_normalised placed_normalised)
  with False show ?thesis
    by blast
qed

subsection \<open>\<^verbatim>\<open>dequeue\<close> and the loop of \<^verbatim>\<open>stepProcesses\<close>\<close>

lemma dequeue_Nil: "readyQueue s [] \<Longrightarrow> dequeue s = s\<lparr>running := None\<rparr>"
  by (simp add: dequeue_def readyQueue_def)

lemma dequeue_Cons:
  "readyQueue s (h # xs) \<Longrightarrow> dequeue s = s\<lparr>running := Some h, head := nxt (table s ! h)\<rparr>"
  by (simp add: dequeue_def readyQueue_def deref_def)

lemma step_loop_queue:
  "queue (table s) p xs \<Longrightarrow>
   \<exists>s'. step_loop s p = Some s' \<and> head s' = head s \<and> running s' = running s \<and>
        length (table s') = length (table s) \<and>
        (\<forall>i<length (table s). table s' ! i = (if i \<in> set xs then bump (table s ! i) else table s ! i))"
proof (induction xs arbitrary: s p)
  case Nil
  then have "step_loop s p = Some s"
    by (subst step_loop.simps) simp
  then show ?case by simp
next
  case (Cons x xs)
  let ?s2 = "store x (\<lambda>n. n\<lparr>turnaround := turnaround n + 1\<rparr>) (store x (\<lambda>n. n\<lparr>wait := wait n + 1\<rparr>) s)"
  from Cons.prems have p: "p = Some x" and x: "x < length (table s)"
    and q: "queue (table s) (nxt (table s ! x)) xs"
    by simp_all
  from q x have nin: "x \<notin> set xs"
    by (rule queue_hd_notin_tl)
  from x have nx: "nxt (deref ?s2 x) = nxt (table s ! x)"
    by (simp add: deref_def)
  from p nx have unf: "step_loop s p = step_loop ?s2 (nxt (table s ! x))"
    by (subst step_loop.simps) (simp add: Let_def)
  from q nin have "queue (table ?s2) (nxt (table s ! x)) xs"
    by (simp add: queue_update_notin)
  from Cons.IH [OF this] obtain s' where s': "step_loop ?s2 (nxt (table s ! x)) = Some s'"
    "head s' = head s" "running s' = running s" "length (table s') = length (table s)"
    "\<forall>i<length (table s). table s' ! i = (if i \<in> set xs then bump (table ?s2 ! i) else table ?s2 ! i)"
    by auto
  from s'(5) nin x
  have "\<forall>i<length (table s). table s' ! i = (if i \<in> set (x # xs) then bump (table s ! i) else table s ! i)"
    by (auto simp: nth_list_update bump_def)
  with unf s' show ?case
    by simp
qed

subsection \<open>Every operation keeps the invariant\<close>

lemma later_refl [simp]: "later s s"
  by (simp add: later_def)

lemma later_trans:
  assumes "later s s'" and "later s' s''"
  shows "later s s''"
proof -
  from assms have len: "length (table s') = length (table s)" "length (table s'') = length (table s)"
    by (simp_all add: later_def)
  have "arrival (table s'' ! i) = arrival (table s ! i) \<and> priority (table s'' ! i) = priority (table s ! i) \<and>
        burst (table s'' ! i) = burst (table s ! i) \<and> id_s (table s'' ! i) = id_s (table s ! i) \<and>
        wait (table s ! i) \<le> wait (table s'' ! i) \<and>
        turnaround (table s ! i) \<le> turnaround (table s'' ! i) \<and>
        timeLeft (table s'' ! i) \<le> timeLeft (table s ! i)" if "i < length (table s)" for i
  proof -
    from assms(1) that have a: "arrival (table s' ! i) = arrival (table s ! i)"
      "priority (table s' ! i) = priority (table s ! i)" "burst (table s' ! i) = burst (table s ! i)"
      "id_s (table s' ! i) = id_s (table s ! i)" "wait (table s ! i) \<le> wait (table s' ! i)"
      "turnaround (table s ! i) \<le> turnaround (table s' ! i)"
      "timeLeft (table s' ! i) \<le> timeLeft (table s ! i)"
      by (simp_all add: later_def)
    from assms(2) that len have b: "arrival (table s'' ! i) = arrival (table s' ! i)"
      "priority (table s'' ! i) = priority (table s' ! i)" "burst (table s'' ! i) = burst (table s' ! i)"
      "id_s (table s'' ! i) = id_s (table s' ! i)" "wait (table s' ! i) \<le> wait (table s'' ! i)"
      "turnaround (table s' ! i) \<le> turnaround (table s'' ! i)"
      "timeLeft (table s'' ! i) \<le> timeLeft (table s' ! i)"
      by (simp_all add: later_def)
    from a b show ?thesis
      by simp
  qed
  with len show ?thesis
    by (simp add: later_def)
qed

lemma later_running [simp]: "later s (s'\<lparr>running := r\<rparr>) = later s s'"
  by (simp add: later_def)

lemma queue_inv_running [simp]: "queue_inv F (s\<lparr>running := r\<rparr>) xs = queue_inv F s xs"
  by (simp add: queue_inv_def readyQueue_def deref_def)

lemma queue_inv_mono: "queue_inv F s xs \<Longrightarrow> G \<subseteq> F \<Longrightarrow> queue_inv G s xs"
  by (auto simp: queue_inv_def)

lemma queue_inv_head: "queue_inv F s xs \<Longrightarrow> (head s = None) = (xs = [])"
  by (cases xs) (auto simp: queue_inv_def readyQueue_def)

lemma normalise_fields [simp]:
  "arrival (normalise n) = arrival n" "priority (normalise n) = priority n"
  "burst (normalise n) = burst n" "id_s (normalise n) = id_s n" "nxt (normalise n) = nxt n"
  "timeLeft (normalise n) = timeLeft n" "wait (normalise n) = wait n"
  "turnaround (normalise n) = turnaround n"
  by (simp_all add: normalise_def)

lemma quantum_normalise: "quantum (normalise n) = (if Q \<le> quantum n then 0 else quantum n)"
  by (simp add: normalise_def)

lemma placed_fields:
  assumes "placed s node pre post s'" "i < length (table s)"
  shows "arrival (table s' ! i) = arrival (table s ! i)"
    "priority (table s' ! i) = priority (table s ! i)"
    "burst (table s' ! i) = burst (table s ! i)"
    "id_s (table s' ! i) = id_s (table s ! i)"
    "quantum (table s' ! i) = (if i = node then quantum (normalise (table s ! i)) else quantum (table s ! i))"
    "wait (table s' ! i) = wait (table s ! i)"
    "turnaround (table s' ! i) = turnaround (table s ! i)"
    "timeLeft (table s' ! i) = timeLeft (table s ! i)"
proof -
  from assms have "unlinked (table s' ! i) =
      unlinked (if i = node then normalise (table s ! i) else table s ! i)"
    by (simp add: placed_def)
  from unlinked_fields [OF this]
  show "arrival (table s' ! i) = arrival (table s ! i)"
    "priority (table s' ! i) = priority (table s ! i)"
    "burst (table s' ! i) = burst (table s ! i)"
    "id_s (table s' ! i) = id_s (table s ! i)"
    "quantum (table s' ! i) = (if i = node then quantum (normalise (table s ! i)) else quantum (table s ! i))"
    "wait (table s' ! i) = wait (table s ! i)"
    "turnaround (table s' ! i) = turnaround (table s ! i)"
    "timeLeft (table s' ! i) = timeLeft (table s ! i)"
    by (simp_all split: if_splits)
qed

lemma placed_later: "placed s node pre post s' \<Longrightarrow> later s s'"
  by (simp add: later_def placed_fields) (simp add: placed_def)

lemma enqueue_queue_inv:
  assumes inv: "queue_inv F s xs" and b: "node < length (table s)" and n: "node \<notin> set xs"
    and e: "head s = None \<longrightarrow> nxt (deref s node) = None"
  shows "\<exists>s' xs'. enqueue (Some node) s = Some s' \<and> queue_inv (F - {node}) s' xs' \<and>
           set xs' = insert node (set xs) \<and> running s' = running s \<and> later s s'"
proof -
  from inv have q: "readyQueue s xs"
    by (simp add: queue_inv_def)
  from enqueue_placed [OF q b n e] obtain s' pre post
    where en: "enqueue (Some node) s = Some s'" and xs: "xs = pre @ post"
      and pl: "placed s node pre post s'"
    by blast
  have len: "length (table s') = length (table s)"
    using pl by (simp add: placed_def)
  have rq: "readyQueue s' (pre @ node # post)"
    using pl by (simp add: placed_def)
  have qu: "quantum (deref s' i) = (if i = node then quantum (normalise (deref s i)) else quantum (deref s i))"
    if "i < length (table s)" for i
    using placed_fields(5) [OF pl that] by (simp add: deref_def)
  have same: "table s' ! i = table s ! i" if "i < length (table s)" "i \<notin> set xs" "i \<noteq> node" for i
    using pl that xs by (simp add: placed_def)
  have "set (pre @ node # post) \<inter> (F - {node}) = {}"
    using inv xs by (auto simp: queue_inv_def)
  moreover have "\<forall>i\<in>set (pre @ node # post). quantum (deref s' i) < Q"
  proof
    fix i assume i: "i \<in> set (pre @ node # post)"
    then have "i < length (table s)"
      using rq len by (auto simp: readyQueue_def dest: queue_bound)
    moreover have "i \<noteq> node \<longrightarrow> quantum (deref s i) < Q"
      using i inv xs by (auto simp: queue_inv_def)
    ultimately show "quantum (deref s' i) < Q"
      by (simp add: qu quantum_normalise Q_def)
  qed
  moreover have "\<forall>i\<in>F - {node}. i < length (table s') \<and> fresh (deref s' i)"
  proof
    fix i assume i: "i \<in> F - {node}"
    with inv have "i < length (table s)" "fresh (deref s i)" "i \<notin> set xs" "i \<noteq> node"
      by (auto simp: queue_inv_def)
    then show "i < length (table s') \<and> fresh (deref s' i)"
      by (simp add: len same deref_def)
  qed
  moreover have "\<forall>i<length (table s'). 0 \<le> quantum (deref s' i)"
  proof (intro allI impI)
    fix i assume "i < length (table s')"
    then have i: "i < length (table s)" by (simp add: len)
    with inv have "0 \<le> quantum (deref s i)"
      by (simp add: queue_inv_def)
    with i show "0 \<le> quantum (deref s' i)"
      by (auto simp: qu quantum_normalise)
  qed
  ultimately have "queue_inv (F - {node}) s' (pre @ node # post)"
    using rq by (simp add: queue_inv_def)
  moreover have "set (pre @ node # post) = insert node (set xs)"
    using xs by auto
  moreover have "running s' = running s"
    using pl by (simp add: placed_def)
  ultimately show ?thesis
    using en placed_later [OF pl] by blast
qed

lemma dequeue_sched_inv:
  assumes "queue_inv F s xs"
  shows "\<exists>xs'. sched_inv F (dequeue s) xs' \<and> later s (dequeue s)"
proof (cases xs)
  case Nil
  with assms have "dequeue s = s\<lparr>running := None\<rparr>"
    by (simp add: dequeue_Nil queue_inv_def)
  with assms show ?thesis
    by (auto simp: sched_inv_def)
next
  case (Cons h xs')
  let ?s' = "s\<lparr>running := Some h, head := nxt (table s ! h)\<rparr>"
  from assms Cons have rq: "readyQueue s (h # xs')"
    by (simp add: queue_inv_def)
  then have d: "dequeue s = ?s'"
    by (rule dequeue_Cons)
  from rq have h: "h < length (table s)" "h \<notin> set xs'" "readyQueue ?s' xs'"
    by (auto simp: readyQueue_def dest: queue_hd_notin_tl)
  with assms Cons have "queue_inv F ?s' xs'"
    by (auto simp: queue_inv_def deref_def)
  moreover from assms Cons have "h \<notin> F"
    by (auto simp: queue_inv_def)
  ultimately have "sched_inv F ?s' xs'"
    using h by (simp add: sched_inv_def deref_def)
  moreover have "later s ?s'"
    by (simp add: later_def)
  ultimately show ?thesis
    using d by auto
qed

lemma sched_inv_admit:
  assumes inv: "queue_inv F s xs" and nav: "nav \<in> F"
  shows "sched_inv (F - {nav}) (s\<lparr>running := Some nav\<rparr>) xs"
proof -
  from inv nav have "nav < length (table s)" "fresh (deref s nav)" "nav \<notin> set xs"
    by (auto simp: queue_inv_def)
  moreover from inv have "queue_inv (F - {nav}) s xs"
    by (rule queue_inv_mono) auto
  ultimately show ?thesis
    by (simp add: sched_inv_def fresh_def deref_def)
qed

lemma preempt_midslice_inv:
  assumes inv: "sched_inv F s xs" and nav: "nav \<in> F" and r: "running s = Some r"
  shows "\<exists>s' xs'. preempt_midslice nav s = Some s' \<and> sched_inv (F - {nav}) s' xs' \<and> later s s'"
proof -
  from inv r have qi: "queue_inv F s xs" and rr: "r < length (table s)" "r \<notin> set xs"
    "head s = None \<longrightarrow> nxt (deref s r) = None" "r \<notin> F"
    by (simp_all add: sched_inv_def)
  from enqueue_queue_inv [OF qi rr(1,2,3)] obtain s1 xs1
    where en: "enqueue (Some r) s = Some s1" and q1: "queue_inv (F - {r}) s1 xs1"
      and st: "later s s1"
    by blast
  from rr(4) q1 have "queue_inv F s1 xs1"
    by simp
  then have "sched_inv (F - {nav}) (s1\<lparr>running := Some nav\<rparr>) xs1"
    using nav by (rule sched_inv_admit)
  with en st r show ?thesis
    by (auto simp: preempt_midslice_def)
qed

lemma arrive_inv:
  assumes inv: "sched_inv F s xs" and nav: "nav \<in> F"
  shows "\<exists>s' xs'. arrive nav s = Some s' \<and> sched_inv (F - {nav}) s' xs' \<and> later s s'"
proof (cases "running s")
  case None
  from inv have qi: "queue_inv F s xs"
    by (simp add: sched_inv_def)
  then have "sched_inv (F - {nav}) (s\<lparr>running := Some nav\<rparr>) xs"
    using nav by (rule sched_inv_admit)
  with None show ?thesis
    by (auto simp: arrive_def)
next
  case (Some r)
  from inv have qi: "queue_inv F s xs"
    by (simp add: sched_inv_def)
  have discard: "sched_inv (F - {nav}) (s\<lparr>running := Some nav\<rparr>) xs"
    using qi nav by (rule sched_inv_admit)
  from preempt_midslice_inv [OF inv nav Some] obtain s1 xs1
    where mid: "preempt_midslice nav s = Some s1" "sched_inv (F - {nav}) s1 xs1" "later s s1"
    by blast
  have bnd: "\<exists>s' xs'. preempt_boundary nav s = Some s' \<and> sched_inv (F - {nav}) s' xs' \<and> later s s'"
  proof (cases "timeLeft (deref s r) \<le> 0")
    case True
    with Some discard show ?thesis
      by (auto simp: preempt_boundary_def)
  next
    case False
    with Some have "preempt_boundary nav s = preempt_midslice nav s"
      by (simp add: preempt_boundary_def preempt_midslice_def)
    with mid show ?thesis by auto
  qed
  show ?thesis
  proof (cases "priority (deref s r) < priority (deref s nav)")
    case True
    with Some mid bnd show ?thesis
      by (auto simp: arrive_def)
  next
    case False
    from qi nav have nn: "nav < length (table s)" "nav \<notin> set xs" "nxt (deref s nav) = None"
      by (auto simp: queue_inv_def fresh_def)
    then have "head s = None \<longrightarrow> nxt (deref s nav) = None"
      by simp
    from enqueue_queue_inv [OF qi nn(1,2) this] obtain s' xs'
      where en: "enqueue (Some nav) s = Some s'" and q': "queue_inv (F - {nav}) s' xs'"
        and set': "set xs' = insert nav (set xs)" and run: "running s' = running s"
        and st: "later s s'"
      by blast
    from inv Some nav have "r < length (table s)" "r \<notin> F" "r \<notin> set xs" "r \<noteq> nav"
      by (auto simp: sched_inv_def)
    moreover from q' set' have "head s' \<noteq> None"
      by (auto simp: queue_inv_head)
    ultimately have "sched_inv (F - {nav}) s' xs'"
      using q' set' run Some st by (auto simp: sched_inv_def later_def)
    with False Some en st show ?thesis
      by (auto simp: arrive_def)
  qed
qed

lemma quantumCheck_inv:
  assumes inv: "sched_inv F s xs"
  shows "\<exists>s' xs'. quantumCheck s = Some s' \<and> sched_inv F s' xs' \<and> later s s'"
proof (cases "running s")
  case None
  with inv show ?thesis
    by (auto simp: quantumCheck_def)
next
  case (Some r)
  from inv Some have qi: "queue_inv F s xs" and rr: "r < length (table s)" "r \<notin> set xs"
    "head s = None \<longrightarrow> nxt (deref s r) = None" "r \<notin> F"
    by (simp_all add: sched_inv_def)
  consider (finished) "timeLeft (deref s r) = 0"
    | (expired) "timeLeft (deref s r) \<noteq> 0" "quantum (deref s r) = Q"
    | (going) "timeLeft (deref s r) \<noteq> 0" "quantum (deref s r) \<noteq> Q"
    by blast
  then show ?thesis
  proof cases
    case finished
    let ?s0 = "store r (\<lambda>n. n\<lparr>nxt := None\<rparr>) s"
    have "queue_inv F ?s0 xs"
      unfolding queue_inv_def
    proof (intro conjI ballI allI impI)
      show "readyQueue ?s0 xs"
        using qi rr by (simp add: queue_inv_def readyQueue_def queue_update_notin)
      show "set xs \<inter> F = {}"
        using qi by (simp add: queue_inv_def)
      show "quantum (deref ?s0 i) < Q" if "i \<in> set xs" for i
        using qi rr that by (auto simp: queue_inv_def deref_def nth_list_update)
      show "i < length (table ?s0)" if "i \<in> F" for i
        using qi that by (simp add: queue_inv_def)
      show "fresh (deref ?s0 i)" if "i \<in> F" for i
        using qi rr that by (auto simp: queue_inv_def deref_def nth_list_update)
      show "0 \<le> quantum (deref ?s0 i)" if "i < length (table ?s0)" for i
        using qi rr that by (auto simp: queue_inv_def deref_def nth_list_update)
    qed
    from dequeue_sched_inv [OF this] obtain xs' where "sched_inv F (dequeue ?s0) xs'"
      "later ?s0 (dequeue ?s0)"
      by blast
    moreover have "later s ?s0"
      using rr by (auto simp: later_def nth_list_update)
    ultimately show ?thesis
      using Some finished by (auto simp: quantumCheck_def intro: later_trans)
  next
    case expired
    from enqueue_queue_inv [OF qi rr(1,2,3)] obtain s1 xs1
      where en: "enqueue (Some r) s = Some s1" and q1: "queue_inv (F - {r}) s1 xs1"
        and st: "later s s1"
      by blast
    from rr(4) q1 have "queue_inv F s1 xs1"
      by simp
    from dequeue_sched_inv [OF this] obtain xs' where "sched_inv F (dequeue s1) xs'"
      "later s1 (dequeue s1)"
      by blast
    with Some expired en st show ?thesis
      by (auto simp: quantumCheck_def intro: later_trans)
  next
    case going
    with Some inv show ?thesis
      by (auto simp: quantumCheck_def)
  qed
qed

lemma stepProcesses_result:
  assumes inv: "sched_inv F s xs"
  shows "\<exists>s'. stepProcesses s = Some s' \<and> head s' = head s \<and> running s' = running s \<and>
          length (table s') = length (table s) \<and>
          (\<forall>i<length (table s). table s' ! i =
             (if running s = Some i then advance (table s ! i)
              else if i \<in> set xs then bump (table s ! i) else table s ! i))"
proof -
  define s1 where "s1 = (case running s of None \<Rightarrow> s
     | Some r \<Rightarrow> store r (\<lambda>n. n\<lparr>turnaround := turnaround n + 1\<rparr>)
                  (store r (\<lambda>n. n\<lparr>timeLeft := timeLeft n - 1\<rparr>)
                    (store r (\<lambda>n. n\<lparr>quantum := quantum n + 1\<rparr>) s)))"
  have sp: "stepProcesses s = step_loop s1 (head s1)"
    by (simp add: stepProcesses_def s1_def Let_def)
  have s1: "head s1 = head s" "running s1 = running s" "length (table s1) = length (table s)"
    by (simp_all add: s1_def split: option.split)
  have t1: "table s1 ! i = (if running s = Some i then advance (table s ! i) else table s ! i)"
    if "i < length (table s)" for i
    using that by (auto simp: s1_def advance_def nth_list_update split: option.split)
  from inv have q: "queue (table s) (head s) xs" and r: "\<forall>r. running s = Some r \<longrightarrow> r \<notin> set xs"
    by (simp_all add: sched_inv_def queue_inv_def readyQueue_def)
  have "queue (table s1) (head s1) xs = queue (table s) (head s) xs"
    unfolding s1(1)
  proof (rule queue_cong)
    fix x assume "x \<in> set xs"
    with q r have "x < length (table s)" "running s \<noteq> Some x"
      by (auto dest: queue_bound)
    then show "nxt (table s1 ! x) = nxt (table s ! x)"
      by (simp add: t1)
  qed (simp add: s1)
  with q have "queue (table s1) (head s1) xs"
    by simp
  from step_loop_queue [OF this] obtain s' where s': "step_loop s1 (head s1) = Some s'"
    "head s' = head s1" "running s' = running s1" "length (table s') = length (table s1)"
    "\<forall>i<length (table s1). table s' ! i = (if i \<in> set xs then bump (table s1 ! i) else table s1 ! i)"
    by blast
  have "\<forall>i<length (table s). table s' ! i =
             (if running s = Some i then advance (table s ! i)
              else if i \<in> set xs then bump (table s ! i) else table s ! i)"
    using s'(5) r by (auto simp: s1 t1)
  with sp s' s1 show ?thesis
    by simp
qed

lemma stepProcesses_inv:
  assumes inv: "sched_inv F s xs"
  shows "\<exists>s'. stepProcesses s = Some s' \<and> sched_inv F s' xs \<and> later s s'"
proof -
  from stepProcesses_result [OF inv] obtain s' where s': "stepProcesses s = Some s'"
    "head s' = head s" "running s' = running s" "length (table s') = length (table s)"
    and tb: "\<And>i. i < length (table s) \<Longrightarrow> table s' ! i =
             (if running s = Some i then advance (table s ! i)
              else if i \<in> set xs then bump (table s ! i) else table s ! i)"
    by blast
  from inv have qi: "queue_inv F s xs"
    and run: "\<And>r. running s = Some r \<Longrightarrow> r < length (table s) \<and> r \<notin> F \<and> r \<notin> set xs \<and>
        (head s = None \<longrightarrow> nxt (deref s r) = None)"
    by (simp_all add: sched_inv_def)
  have nx: "nxt (table s' ! i) = nxt (table s ! i)" if "i < length (table s)" for i
    using that by (simp add: tb advance_def bump_def)
  have st: "later s s'"
    by (simp add: later_def s' tb advance_def bump_def)
  have "queue (table s') (head s) xs = queue (table s) (head s) xs"
  proof (rule queue_cong)
    fix x assume "x \<in> set xs"
    with qi have "x < length (table s)"
      by (auto simp: queue_inv_def readyQueue_def dest: queue_bound)
    then show "nxt (table s' ! x) = nxt (table s ! x)"
      by (rule nx)
  qed (simp add: s')
  with qi s' have "readyQueue s' xs"
    by (simp add: queue_inv_def readyQueue_def)
  moreover have "quantum (deref s' i) < Q" if "i \<in> set xs" for i
  proof -
    from qi that have "i < length (table s)" "quantum (deref s i) < Q"
      by (auto simp: queue_inv_def readyQueue_def dest: queue_bound)
    moreover from run that have "running s \<noteq> Some i"
      by auto
    ultimately show ?thesis
      using that by (simp add: deref_def tb bump_def)
  qed
  moreover have "fresh (deref s' i)" if "i \<in> F" for i
  proof -
    from qi that have "i < length (table s)" "fresh (deref s i)" "i \<notin> set xs"
      by (auto simp: queue_inv_def)
    moreover from run that have "running s \<noteq> Some i"
      by auto
    ultimately show ?thesis
      by (simp add: deref_def tb)
  qed
  moreover have "0 \<le> quantum (deref s' i)" if "i < length (table s)" for i
  proof -
    from qi that have "0 \<le> quantum (deref s i)"
      by (simp add: queue_inv_def)
    with that show ?thesis
      by (simp add: deref_def tb advance_def bump_def)
  qed
  ultimately have "queue_inv F s' xs"
    using qi s' by (simp add: queue_inv_def)
  moreover have "r < length (table s') \<and> r \<notin> F \<and> r \<notin> set xs \<and>
        (head s' = None \<longrightarrow> nxt (deref s' r) = None)" if "running s' = Some r" for r
    using run [of r] that s' by (simp add: deref_def nx)
  ultimately have "sched_inv F s' xs"
    by (simp add: sched_inv_def)
  with s'(1) st show ?thesis
    by simp
qed

subsection \<open>The invariant holds after every tick\<close>

lemma pending_later: "later s s' \<Longrightarrow> pending t rest s' = pending t rest s"
  by (auto simp: pending_def later_def deref_def)

lemma scan_inv:
  assumes "sched_inv (pending t rest s) s xs" "distinct rest" "\<forall>i\<in>set rest. i < length (table s)"
    "0 \<le> t"
  shows "\<exists>s' flag' xs'. scan t rest s flag = Some (s', flag') \<and>
           sched_inv (pending t [] s') s' xs' \<and> later s s'"
  using assms
proof (induction rest arbitrary: s xs flag)
  case Nil
  then show ?case by auto
next
  case (Cons nav rest)
  show ?case
  proof (cases "arrival (deref s nav) = t")
    case True
    with Cons.prems have "nav \<in> pending t (nav # rest) s"
      by (simp add: pending_def)
    from arrive_inv [OF Cons.prems(1) this] obtain s1 xs1
      where ar: "arrive nav s = Some s1" and i1: "sched_inv (pending t (nav # rest) s - {nav}) s1 xs1"
        and st: "later s s1"
      by blast
    from Cons.prems(2,4) True have "pending t (nav # rest) s - {nav} = pending t rest s"
      by (auto simp: pending_def)
    with i1 st have "sched_inv (pending t rest s1) s1 xs1"
      by (simp add: pending_later)
    moreover from Cons.prems st have "distinct rest" "\<forall>i\<in>set rest. i < length (table s1)"
      "0 \<le> t"
      by (simp_all add: later_def)
    ultimately obtain s' flag' xs' where "scan t rest s1 True = Some (s', flag')"
      "sched_inv (pending t [] s') s' xs'" "later s1 s'"
      using Cons.IH [of s1 xs1 True] by blast
    with True ar st show ?thesis
      by (auto intro: later_trans)
  next
    case False
    then have "pending t (nav # rest) s = pending t rest s"
      by (auto simp: pending_def)
    with Cons.prems have "sched_inv (pending t rest s) s xs" "distinct rest"
      "\<forall>i\<in>set rest. i < length (table s)" "0 \<le> t"
      by simp_all
    from Cons.IH [OF this, of flag] False show ?thesis
      by simp
  qed
qed

lemma tick_inv:
  assumes "sched_inv (pending t [0..<length (table s)] s) s xs" "0 \<le> t"
  shows "\<exists>s' xs'. tick t s = Some s' \<and>
           sched_inv (pending (t + 1) [0..<length (table s')] s') s' xs' \<and> later s s'"
proof -
  from scan_inv [OF assms(1) _ _ assms(2), of False] obtain s1 flag xs1
    where sc: "scan t [0..<length (table s)] s False = Some (s1, flag)"
      and i1: "sched_inv (pending t [] s1) s1 xs1" and st1: "later s s1"
    by auto
  have "\<exists>s2 xs2. (if \<not> flag then quantumCheck s1 else Some s1) = Some s2 \<and>
      sched_inv (pending t [] s1) s2 xs2 \<and> later s1 s2"
    using quantumCheck_inv [OF i1] i1 by auto
  then obtain s2 xs2 where qc: "(if \<not> flag then quantumCheck s1 else Some s1) = Some s2"
    and i2: "sched_inv (pending t [] s1) s2 xs2" and st2: "later s1 s2"
    by blast
  from stepProcesses_inv [OF i2] obtain s' where sp: "stepProcesses s2 = Some s'"
    and i3: "sched_inv (pending t [] s1) s' xs2" and st3: "later s2 s'"
    by blast
  from st2 st3 have "later s1 s'"
    by (rule later_trans)
  then have "pending t [] s1 = pending t [] s'"
    by (simp add: pending_later)
  also have "\<dots> = pending (t + 1) [0..<length (table s')] s'"
    by (auto simp: pending_def)
  finally have "sched_inv (pending (t + 1) [0..<length (table s')] s') s' xs2"
    using i3 by simp
  moreover have "later s s'"
    using st1 st2 st3 by (blast intro: later_trans)
  moreover have "tick t s = Some s'"
    using sc qc sp by (simp add: tick_def)
  ultimately show ?thesis
    by blast
qed

lemma readFile_inv:
  "sched_inv (pending 0 [0..<length (table (readFile ls))] (readFile ls)) (readFile ls) []"
  by (auto simp: sched_inv_def queue_inv_def readyQueue_def readFile_def pending_def fresh_def
      deref_def newNode_def split: prod.split)

lemma ticks_inv:
  "\<exists>s xs. ticks k (readFile ls) = Some s \<and>
      sched_inv (pending (int k) [0..<length (table s)] s) s xs \<and> later (readFile ls) s"
proof (induction k)
  case 0
  show ?case
    using readFile_inv [of ls] by (auto intro!: exI [of _ "[]"])
next
  case (Suc k)
  then obtain s xs where s: "ticks k (readFile ls) = Some s"
    "sched_inv (pending (int k) [0..<length (table s)] s) s xs" "later (readFile ls) s"
    by blast
  have "0 \<le> int k"
    by simp
  from tick_inv [OF s(2) this] obtain s' xs' where "tick (int k) s = Some s'"
    "sched_inv (pending (int k + 1) [0..<length (table s')] s') s' xs'" "later s s'"
    by blast
  with s have "ticks (Suc k) (readFile ls) = Some s' \<and>
      sched_inv (pending (int (Suc k)) [0..<length (table s')] s') s' xs' \<and> later (readFile ls) s'"
    by (auto simp: add.commute intro: later_trans)
  then show ?case
    by blast
qed

section \<open>The claims\<close>

subsection \<open>C1: order of the ready queue\<close>

text \<open>
  C1 says that in every reachable state the ready queue is sorted by non-increasing priority,
  and that every \<^verbatim>\<open>enqueue\<close> keeps it so. The program does not do this. In the last branch of
  \<^verbatim>\<open>enqueue\<close> the loop advances while \<^verbatim>\<open>nav->next->priority <= node->priority\<close>, so a node whose
  priority is below that of the second entry is linked directly behind the head. On the input
  \<open>C1_input\<close> the queue after three ticks holds processes 1 and 2 (priorities 9, 7); the
  arrival of process 3 (priority 5) at tick 3 leaves the queue 1, 3, 2, that is 9, 5, 7.
\<close>

theorem C1_enqueue_breaks_order:
  "ticks 3 (readFile C1_input) = Some C1_before \<and> readyQueue C1_before [1, 2] \<and>
   ticks 4 (readFile C1_input) = Some C1_after \<and> readyQueue C1_after [1, 3, 2] \<and>
   priority (deref C1_after 1) = 9 \<and> priority (deref C1_after 3) = 5 \<and>
   priority (deref C1_after 2) = 7"
  by code_simp

subsection \<open>C2: a finished process at a preempting arrival\<close>

text \<open>
  C2 says that a running process whose remaining time is at most 0 is discarded when a process
  of higher priority arrives, whatever its quantum. The program tests \<^verbatim>\<open>timeLeft <= 0\<close> only in
  the branch for \<^verbatim>\<open>quantum\<close> 0 or 10; with any other quantum the finished process is put back
  into the ready queue. On \<open>C2_input\<close> process 0 has finished after three ticks with quantum 3;
  the arrival of process 1 makes process 1 running and leaves process 0 in the ready queue.
\<close>

theorem C2_finished_process_requeued:
  "ticks 3 (readFile C2_input) = Some C2_before \<and> running C2_before = Some 0 \<and>
   timeLeft (deref C2_before 0) = 0 \<and> quantum (deref C2_before 0) = 3 \<and>
   priority (deref C2_before 0) < priority (deref C2_before 1) \<and>
   arrival (deref C2_before 1) = 3 \<and>
   arrive 1 C2_before = Some C2_after \<and> running C2_after = Some 1 \<and>
   readyQueue C2_after [0]"
  by code_simp

subsection \<open>C3: a preempted process goes to the front of its priority class\<close>

text \<open>
  C3 says that a process inserted with a quantum other than 0 (preempted in the middle of its
  slice) is placed at the front of its priority class, for every queue state. The comment on
  \<^verbatim>\<open>enqueue\<close> promises a queue kept as a priority queue with such a node ahead of the nodes of
  equal priority. But the loop of the last branch also tests \<^verbatim>\<open>node->quantum == 0\<close>, so for a
  preempted node of a priority below the head's it never advances, and the node is linked
  directly behind the head, ahead of every other entry whatever its priority. On
  \<open>C3_bug_input\<close>, after nine ticks process 2 (priority 1) is running with quantum 2 and the
  ready queue holds processes 3 and 4, both of priority 2. The arrival of process 5 (priority
  5) at tick 9 takes the context-switch branch and calls \<^verbatim>\<open>enqueue\<close> on process 2; the queue
  becomes 3, 2, 4, that is priorities 2, 1, 2: the preempted process is ahead of a process of
  higher priority and not in a class of its own priority at all.
\<close>

theorem C3_preempted_behind_head:
  "ticks 9 (readFile C3_bug_input) = Some C3_before \<and> running C3_before = Some 2 \<and>
   quantum (deref C3_before 2) = 2 \<and> 0 < timeLeft (deref C3_before 2) \<and>
   readyQueue C3_before [3, 4] \<and>
   priority (deref C3_before 3) = 2 \<and> priority (deref C3_before 4) = 2 \<and>
   priority (deref C3_before 2) = 1 \<and>
   arrive 5 C3_before = preempt_midslice 5 C3_before \<and>
   enqueue (Some 2) C3_before = Some C3_after \<and> quantum (deref C3_after 2) = 2 \<and>
   readyQueue C3_after [3, 2, 4] \<and>
   priority (deref C3_after 3) = 2 \<and> priority (deref C3_after 2) = 1 \<and>
   priority (deref C3_after 4) = 2"
  by code_simp

text \<open>
  What does hold of such an insertion, for every well-formed ready queue \<open>xs\<close>, sorted or not,
  and every node that is not queued (and whose link is \<^verbatim>\<open>NULL\<close> if the queue is empty, as in
  every state the program reaches): the call returns, the queue afterwards is
  \<open>pre @ node # post\<close> with \<open>xs = pre @ post\<close>, the node sits there with the quantum it came
  with, or with 0 if that was \<open>Q\<close> or more, and if this quantum is not 0 then no process in
  \<open>pre\<close> has the priority of the node, and \<open>pre\<close> is empty when no queued priority exceeds
  that of the node. Nothing is said here about entries of higher priority behind the node.
\<close>

theorem preempted_ahead_of_equals:
  assumes "readyQueue s xs" and "node < length (table s)" and "node \<notin> set xs"
    and "head s = None \<longrightarrow> nxt (deref s node) = None"
  shows "\<exists>s' pre post. enqueue (Some node) s = Some s' \<and> xs = pre @ post \<and>
           readyQueue s' (pre @ node # post) \<and>
           (\<forall>i<length (table s). priority (deref s' i) = priority (deref s i)) \<and>
           quantum (deref s' node) =
             (if Q \<le> quantum (deref s node) then 0 else quantum (deref s node)) \<and>
           (quantum (deref s' node) \<noteq> 0 \<longrightarrow>
              (\<forall>m\<in>set pre. priority (deref s' m) \<noteq> priority (deref s' node)) \<and>
              ((\<forall>m\<in>set xs. priority (deref s m) \<le> priority (deref s node)) \<longrightarrow> pre = []))"
proof -
  from enqueue_placed [OF assms] obtain s' pre post
    where en: "enqueue (Some node) s = Some s'" and xs: "xs = pre @ post"
      and pl: "placed s node pre post s'"
      and pre: "quantum (deref s node) \<noteq> 0 \<and> quantum (deref s node) < Q \<longrightarrow>
        pre = [] \<or> pre = [hd xs] \<and> priority (deref s node) < priority (deref s (hd xs))"
    by blast
  have pr: "priority (deref s' i) = priority (deref s i)" if "i < length (table s)" for i
    using placed_fields(2) [OF pl that] by (simp add: deref_def)
  have qu: "quantum (deref s' node) =
      (if Q \<le> quantum (deref s node) then 0 else quantum (deref s node))"
    using placed_fields(5) [OF pl assms(2)] by (simp add: deref_def quantum_normalise)
  have rq: "readyQueue s' (pre @ node # post)"
    using pl by (simp add: placed_def)
  have bound: "m < length (table s)" if "m \<in> set xs" for m
    using assms(1) that by (auto simp: readyQueue_def dest: queue_bound)
  have front: "(\<forall>m\<in>set pre. priority (deref s' m) \<noteq> priority (deref s' node)) \<and>
      ((\<forall>m\<in>set xs. priority (deref s m) \<le> priority (deref s node)) \<longrightarrow> pre = [])"
    if nz: "quantum (deref s' node) \<noteq> 0"
  proof -
    from nz qu have "quantum (deref s node) \<noteq> 0 \<and> quantum (deref s node) < Q"
      by (auto split: if_splits)
    with pre have alt: "pre = [] \<or> pre = [hd xs] \<and> priority (deref s node) < priority (deref s (hd xs))"
      by blast
    have "\<forall>m\<in>set pre. priority (deref s' m) \<noteq> priority (deref s' node)"
    proof
      fix m assume m: "m \<in> set pre"
      with alt have "m = hd xs" "priority (deref s node) < priority (deref s m)"
        by auto
      moreover from m xs have "m \<in> set xs"
        by simp
      ultimately show "priority (deref s' m) \<noteq> priority (deref s' node)"
        using assms(2) by (simp add: pr bound)
    qed
    moreover have "pre = []" if le: "\<forall>m\<in>set xs. priority (deref s m) \<le> priority (deref s node)"
    proof (rule ccontr)
      assume "pre \<noteq> []"
      with alt have "pre = [hd xs]" "priority (deref s node) < priority (deref s (hd xs))"
        by auto
      moreover from this(1) xs have "hd xs \<in> set xs"
        by (metis list.set_intros(1) append_Cons)
      ultimately show False
        using le by fastforce
    qed
    ultimately show ?thesis
      by blast
  qed
  from en xs rq pr qu front show ?thesis
    by blast
qed

theorem preempted_ahead_of_equals_witness:
  "readyQueue C3_state [1] \<and> 0 < length (table C3_state) \<and> 0 \<notin> set [1::nat] \<and>
   quantum (deref C3_state 0) = 3 \<and>
   priority (deref C3_state 1) \<le> priority (deref C3_state 0) \<and>
   (\<exists>s'. enqueue (Some 0) C3_state = Some s' \<and> quantum (deref s' 0) = 3 \<and>
      readyQueue s' [0, 1])"
proof -
  have q: "readyQueue C3_state [1]"
    by code_simp
  have b: "0 < length (table C3_state)"
    by code_simp
  have n: "0 \<notin> set [1::nat]"
    by simp
  have h: "head C3_state = None \<longrightarrow> nxt (deref C3_state 0) = None"
    by code_simp
  have z: "quantum (deref C3_state 0) = 3"
    by code_simp
  have p: "priority (deref C3_state 1) \<le> priority (deref C3_state 0)"
    by code_simp
  from preempted_ahead_of_equals [OF q b n h] z p
  have "\<exists>s'. enqueue (Some 0) C3_state = Some s' \<and> quantum (deref s' 0) = 3 \<and>
      readyQueue s' [0, 1]"
    by (auto simp: Q_def)
  with q b n z p show ?thesis
    by simp
qed

subsection \<open>C4: a process with quantum 0 goes to the back of its priority class\<close>

text \<open>
  C4 says that a process inserted with quantum 0 is placed behind every queued process of
  equal or higher priority and directly before the first one of lower priority. The comment on
  \<^verbatim>\<open>enqueue\<close> promises the same (the node is placed at the end of all nodes of equal priority),
  but the branch for a priority equal to the head's links the node directly behind the head.
  On \<open>C4_input\<close> the queue after three ticks holds processes 1 and 2, both of priority 5;
  inserting process 3, of priority 5 and quantum 0, gives 1, 3, 2: the newcomer is ahead of
  process 2.
\<close>

theorem C4_fresh_not_at_back:
  "ticks 3 (readFile C4_input) = Some C4_before \<and> readyQueue C4_before [1, 2] \<and>
   priority (deref C4_before 1) = 5 \<and> priority (deref C4_before 2) = 5 \<and>
   priority (deref C4_before 3) = 5 \<and> quantum (deref C4_before 3) = 0 \<and>
   arrive 3 C4_before = enqueue (Some 3) C4_before \<and>
   enqueue (Some 3) C4_before = Some C4_after \<and> readyQueue C4_after [1, 3, 2]"
  by code_simp

subsection \<open>C5: the remaining time never becomes negative\<close>

text \<open>
  C5 says that wait and turnaround never decrease and that the remaining time never increases
  and is never negative. The last part fails: \<^verbatim>\<open>quantumCheck\<close>, which reaps a finished process,
  is skipped on every tick with an arrival, and it tests \<^verbatim>\<open>timeLeft == 0\<close>, so a process that
  was stepped once more is never reaped. On \<open>C5_input\<close> process 0 finishes at the end of tick
  2, process 1 (lower priority) arrives at tick 3, and after tick 3 process 0 is still running
  with remaining time -1.
\<close>

theorem C5_timeLeft_negative:
  "ticks 4 (readFile C5_input) = Some C5_state \<and> running C5_state = Some 0 \<and>
   burst (deref C5_state 0) = 3 \<and> timeLeft (deref C5_state 0) = - 1"
  by code_simp

text \<open>
  What does hold of the counters: on every input each iteration of the main loop returns, and
  from one tick to the next no process's wait or turnaround decreases and no process's
  remaining time increases.
\<close>

theorem counters_move_forward:
  "\<exists>s s'. ticks k (readFile ls) = Some s \<and> tick (int k) s = Some s' \<and>
      length (table s) = length ls \<and> length (table s') = length ls \<and>
      (\<forall>i<length ls. wait (deref s i) \<le> wait (deref s' i) \<and>
         turnaround (deref s i) \<le> turnaround (deref s' i) \<and>
         timeLeft (deref s' i) \<le> timeLeft (deref s i))"
proof -
  from ticks_inv [of k ls] obtain s xs where s: "ticks k (readFile ls) = Some s"
    and inv: "sched_inv (pending (int k) [0..<length (table s)] s) s xs"
    and l0: "later (readFile ls) s"
    by blast
  have "0 \<le> int k"
    by simp
  from tick_inv [OF inv this] obtain s' where s': "tick (int k) s = Some s'" and l1: "later s s'"
    by blast
  from l0 have len: "length (table s) = length ls"
    by (simp add: later_def readFile_def)
  with l1 have "length (table s') = length ls \<and>
      (\<forall>i<length ls. wait (deref s i) \<le> wait (deref s' i) \<and>
         turnaround (deref s i) \<le> turnaround (deref s' i) \<and>
         timeLeft (deref s' i) \<le> timeLeft (deref s i))"
    by (simp add: later_def deref_def)
  with s s' len show ?thesis
    by blast
qed

subsection \<open>C6: termination is permanent\<close>

text \<open>
  C6 says that a process whose remaining time has reached 0 is never again running or queued
  at a later tick. On \<open>C6_input\<close> process 0 has remaining time 0 after four ticks; the arrival
  of process 1 at tick 4 puts it into the ready queue, and at tick 5, when process 1 has
  finished, it is taken from the queue and runs again.
\<close>

theorem C6_finished_process_returns:
  "ticks 4 (readFile C6_input) = Some C6_finished \<and> timeLeft (deref C6_finished 0) = 0 \<and>
   ticks 5 (readFile C6_input) = Some C6_queued \<and> readyQueue C6_queued [0] \<and>
   ticks 6 (readFile C6_input) = Some C6_resumed \<and> running C6_resumed = Some 0 \<and>
   timeLeft (deref C6_resumed 0) = - 1"
  by code_simp

subsection \<open>C7: the range of the quantum\<close>

text \<open>
  C7 says that every quantum lies between 0 and \<open>Q\<close> in every reachable state, and that
  \<^verbatim>\<open>enqueue\<close> resets a quantum of \<open>Q\<close> or more, so that no queued process has one. The first
  part fails for the running process: \<^verbatim>\<open>quantumCheck\<close>, which by its comment puts a process that
  has exhausted its quantum back into the queue, runs only on ticks without an arrival and
  tests \<^verbatim>\<open>quantum == Q\<close>. On \<open>C7_input\<close> process 1, of the same priority, arrives at tick 10,
  when process 0 has quantum 10; the check is skipped, after eleven ticks process 0 is running
  with quantum 11, and no later check can match.
\<close>

theorem C7_quantum_above_Q:
  "ticks 11 (readFile C7_input) = Some C7_state \<and> running C7_state = Some 0 \<and>
   quantum (deref C7_state 0) = 11 \<and> \<not> quantum (deref C7_state 0) \<le> Q"
  by code_simp

text \<open>
  What does hold of the quantum: after any number of ticks on any input the simulation has
  returned a state whose ready queue is well formed, in which every queued process has a
  quantum from 0 to \<open>Q - 1\<close> and no process has a negative quantum; and \<^verbatim>\<open>enqueue\<close>, given a
  node with a quantum of \<open>Q\<close> or more (not queued, with a \<^verbatim>\<open>NULL\<close> link if the queue is empty),
  returns with this node queued and its quantum 0.
\<close>

theorem queued_quantum_bounds:
  assumes "readyQueue s xs" and "node < length (table s)" and "node \<notin> set xs"
    and "head s = None \<longrightarrow> nxt (deref s node) = None"
    and "Q \<le> quantum (deref s node)"
  shows "(\<exists>s' ys. enqueue (Some node) s = Some s' \<and> readyQueue s' ys \<and> node \<in> set ys \<and>
            quantum (deref s' node) = 0) \<and>
         (\<exists>t ys. ticks k (readFile ls) = Some t \<and> readyQueue t ys \<and>
            (\<forall>i\<in>set ys. 0 \<le> quantum (deref t i) \<and> quantum (deref t i) < Q) \<and>
            (\<forall>i<length (table t). 0 \<le> quantum (deref t i)))"
proof
  from enqueue_placed [OF assms(1-4)] obtain s' pre post
    where en: "enqueue (Some node) s = Some s'" and pl: "placed s node pre post s'"
    by blast
  from placed_fields(5) [OF pl assms(2)] assms(5) have "quantum (deref s' node) = 0"
    by (simp add: deref_def quantum_normalise)
  moreover from pl have "readyQueue s' (pre @ node # post)"
    by (simp add: placed_def)
  ultimately show "\<exists>s' ys. enqueue (Some node) s = Some s' \<and> readyQueue s' ys \<and>
      node \<in> set ys \<and> quantum (deref s' node) = 0"
    using en by fastforce
next
  from ticks_inv [of k ls] obtain t ys where t: "ticks k (readFile ls) = Some t"
    and inv: "sched_inv (pending (int k) [0..<length (table t)] t) t ys"
    by blast
  from inv have q: "queue_inv (pending (int k) [0..<length (table t)] t) t ys"
    by (simp add: sched_inv_def)
  then have "readyQueue t ys" "\<forall>i<length (table t). 0 \<le> quantum (deref t i)"
    "\<forall>i\<in>set ys. quantum (deref t i) < Q"
    by (simp_all add: queue_inv_def)
  moreover from this(1) have "\<forall>i\<in>set ys. i < length (table t)"
    by (auto simp: readyQueue_def dest: queue_bound)
  ultimately show "\<exists>t ys. ticks k (readFile ls) = Some t \<and> readyQueue t ys \<and>
      (\<forall>i\<in>set ys. 0 \<le> quantum (deref t i) \<and> quantum (deref t i) < Q) \<and>
      (\<forall>i<length (table t). 0 \<le> quantum (deref t i))"
    using t by blast
qed

theorem queued_quantum_bounds_witness:
  "readyQueue C7_rr_state [1] \<and> 0 < length (table C7_rr_state) \<and> 0 \<notin> set [1::nat] \<and>
   Q \<le> quantum (deref C7_rr_state 0) \<and>
   (\<exists>s' ys. enqueue (Some 0) C7_rr_state = Some s' \<and> readyQueue s' ys \<and> 0 \<in> set ys \<and>
      quantum (deref s' 0) = 0) \<and>
   (\<exists>t ys. ticks 10 (readFile C7_rr_input) = Some t \<and> readyQueue t ys \<and>
      (\<forall>i\<in>set ys. 0 \<le> quantum (deref t i) \<and> quantum (deref t i) < Q) \<and>
      (\<forall>i<length (table t). 0 \<le> quantum (deref t i)))"
proof -
  have q: "readyQueue C7_rr_state [1]"
    by code_simp
  have b: "0 < length (table C7_rr_state)"
    by code_simp
  have n: "0 \<notin> set [1::nat]"
    by simp
  have h: "head C7_rr_state = None \<longrightarrow> nxt (deref C7_rr_state 0) = None"
    by code_simp
  have z: "Q \<le> quantum (deref C7_rr_state 0)"
    by code_simp
  from queued_quantum_bounds [OF q b n h z, of 10 C7_rr_input] q b n z show ?thesis
    by simp
qed

subsection \<open>C8: single occupancy\<close>

text \<open>
  C8: between ticks no process is both in the ready queue and in the running slot. After any
  number \<open>k\<close> of iterations of the main loop, on any input, the loop has returned a state
  whose ready queue is a well-formed list \<open>xs\<close>, and the running process, if there is one, is
  not among \<open>xs\<close>.
\<close>

theorem C8_single_occupancy:
  "\<exists>s xs. ticks k (readFile ls) = Some s \<and> readyQueue s xs \<and>
     (\<forall>r. running s = Some r \<longrightarrow> r \<notin> set xs)"
proof -
  from ticks_inv [of k ls] obtain s xs where "ticks k (readFile ls) = Some s"
    "sched_inv (pending (int k) [0..<length (table s)] s) s xs"
    by blast
  then have "ticks k (readFile ls) = Some s \<and> readyQueue s xs \<and>
     (\<forall>r. running s = Some r \<longrightarrow> r \<notin> set xs)"
    by (simp add: sched_inv_def queue_inv_def)
  then show ?thesis
    by blast
qed

theorem C8_single_occupancy_witness:
  "ticks 5 (readFile C8_input) = Some C8_state \<and> running C8_state = Some 0 \<and>
   readyQueue C8_state [1] \<and> (\<exists>xs. readyQueue C8_state xs \<and> 0 \<notin> set xs)"
proof -
  have a: "ticks 5 (readFile C8_input) = Some C8_state"
    by code_simp
  have b: "running C8_state = Some 0"
    by code_simp
  have c: "readyQueue C8_state [1]"
    by code_simp
  from C8_single_occupancy [of 5 C8_input] a b have "\<exists>xs. readyQueue C8_state xs \<and> 0 \<notin> set xs"
    by auto
  with a b c show ?thesis
    by simp
qed

subsection \<open>C9: the two branches of the preemption case\<close>

text \<open>
  C9 says that the two branches of the preemption case make the same transition and differ
  only in the printed message. The comment above them states one rule (check whether the
  running process is finished, switch context if not), but only the first branch drops a
  running process whose remaining time is at most 0; the second has no such test and always
  calls \<^verbatim>\<open>enqueue\<close>. On \<open>C9_input\<close>, after two ticks process 0 has finished with quantum 2, so
  the arrival of process 1 takes the second branch, and what that branch does (process 0 goes
  into the ready queue) differs from what the first branch does in the same state (process 0
  is dropped).
\<close>

theorem C9_branches_differ:
  "ticks 2 (readFile C9_input) = Some C9_state \<and> running C9_state = Some 0 \<and>
   timeLeft (deref C9_state 0) = 0 \<and> quantum (deref C9_state 0) = 2 \<and>
   arrive 1 C9_state = preempt_midslice 1 C9_state \<and>
   preempt_midslice 1 C9_state = Some C9_midslice \<and> readyQueue C9_midslice [0] \<and>
   preempt_boundary 1 C9_state = Some C9_boundary \<and> readyQueue C9_boundary [] \<and>
   preempt_midslice 1 C9_state \<noteq> preempt_boundary 1 C9_state"
  by code_simp

text \<open>
  Where the two branches do agree: in every state whose running process has remaining time
  above 0 they make the same transition of the running slot and the ready queue.
\<close>

theorem branches_agree_when_unfinished:
  assumes "running s = Some r" and "0 < timeLeft (deref s r)"
  shows "preempt_boundary nav s = preempt_midslice nav s"
  using assms by (simp add: preempt_boundary_def preempt_midslice_def)

theorem branches_agree_when_unfinished_witness:
  "running C9_live_state = Some 0 \<and> 0 < timeLeft (deref C9_live_state 0) \<and>
   preempt_boundary 1 C9_live_state = preempt_midslice 1 C9_live_state"
proof -
  have r: "running C9_live_state = Some 0"
    by code_simp
  have t: "0 < timeLeft (deref C9_live_state 0)"
    by code_simp
  from branches_agree_when_unfinished [OF r t, of 1] r t show ?thesis
    by simp
qed

subsection \<open>C10: processes that arrive outside the horizon\<close>

text \<open>
  C10: a process whose arrival tick is negative or at least \<open>N\<close> is, after every number
  \<open>k \<le> N\<close> of iterations of the main loop, neither running nor in the ready queue and still
  as \<^verbatim>\<open>newNode\<close> made it (it has used no time), and the program reports turnaround 0 and wait
  0 for it.
\<close>

theorem C10_outside_horizon:
  assumes "i < length ls"
    and "arrival (deref (readFile ls) i) < 0 \<or> int N \<le> arrival (deref (readFile ls) i)"
    and "k \<le> N"
  shows "(\<exists>s xs. ticks k (readFile ls) = Some s \<and> readyQueue s xs \<and> i \<notin> set xs \<and>
            running s \<noteq> Some i \<and> fresh (deref s i)) \<and>
         (\<exists>out. main ls = Some out \<and> length out = length ls \<and>
            out ! i = (id_s (deref (readFile ls) i), 0, 0))"
proof -
  have len0: "length (table (readFile ls)) = length ls"
    by (simp add: readFile_def)
  have *: "\<exists>s xs. ticks j (readFile ls) = Some s \<and> readyQueue s xs \<and> i \<notin> set xs \<and>
      running s \<noteq> Some i \<and> fresh (deref s i) \<and> length (table s) = length ls \<and>
      turnaround (deref s i) = 0 \<and> wait (deref s i) = 0 \<and>
      id_s (deref s i) = id_s (deref (readFile ls) i)" if j: "j \<le> N" for j
  proof -
    from ticks_inv [of j ls] obtain s xs where s: "ticks j (readFile ls) = Some s"
      and inv: "sched_inv (pending (int j) [0..<length (table s)] s) s xs"
      and st: "later (readFile ls) s"
      by blast
    from st assms(1) have len: "length (table s) = length ls"
      and ar: "arrival (deref s i) = arrival (deref (readFile ls) i)"
      and nm: "id_s (deref s i) = id_s (deref (readFile ls) i)"
      by (simp_all add: later_def len0 deref_def)
    from assms(1,2) j len ar have p: "i \<in> pending (int j) [0..<length (table s)] s"
      by (auto simp: pending_def)
    from inv have q: "queue_inv (pending (int j) [0..<length (table s)] s) s xs"
      by (simp add: sched_inv_def)
    from q p have "fresh (deref s i)" "i \<notin> set xs" "readyQueue s xs"
      by (auto simp: queue_inv_def)
    moreover from inv p have "running s \<noteq> Some i"
      by (auto simp: sched_inv_def)
    ultimately show ?thesis
      using s len nm by (auto simp: fresh_def)
  qed
  from * [OF assms(3)] have "\<exists>s xs. ticks k (readFile ls) = Some s \<and> readyQueue s xs \<and>
      i \<notin> set xs \<and> running s \<noteq> Some i \<and> fresh (deref s i)"
    by blast
  moreover from * [of N] obtain s where "ticks N (readFile ls) = Some s"
    "length (table s) = length ls" "turnaround (deref s i) = 0" "wait (deref s i) = 0"
    "id_s (deref s i) = id_s (deref (readFile ls) i)"
    by auto
  with assms(1) have "main ls = Some (output_rows s) \<and> length (output_rows s) = length ls \<and>
      output_rows s ! i = (id_s (deref (readFile ls) i), 0, 0)"
    by (simp add: main_def output_rows_def deref_def)
  ultimately show ?thesis
    by blast
qed

theorem C10_outside_horizon_witness:
  "(1::nat) < length C10_input \<and> int N \<le> arrival (deref (readFile C10_input) 1) \<and> N \<le> N \<and>
   (\<exists>s xs. ticks N (readFile C10_input) = Some s \<and> readyQueue s xs \<and> 1 \<notin> set xs \<and>
      running s \<noteq> Some 1 \<and> fresh (deref s 1)) \<and>
   (\<exists>out. main C10_input = Some out \<and> length out = length C10_input \<and>
      out ! 1 = (''P2'', 0, 0))"
proof -
  have a: "(1::nat) < length C10_input"
    by code_simp
  have b: "int N \<le> arrival (deref (readFile C10_input) 1)"
    by code_simp
  then have b': "arrival (deref (readFile C10_input) 1) < 0 \<or>
      int N \<le> arrival (deref (readFile C10_input) 1)"
    by simp
  have c: "id_s (deref (readFile C10_input) 1) = ''P2''"
    by code_simp
  from C10_outside_horizon [OF a b' order_refl] a b c show ?thesis
    by simp
qed

end
